theory Spec2Isabelle
  imports Complex_Main "HOL-Library.Multiset" "HOL-Library.Sublist"
begin

section \<open>Data model\<close>

text \<open>
  \<^verbatim>\<open>src/types/index.ts\<close>: the interface \<^verbatim>\<open>FoodItem\<close>. The field \<^verbatim>\<open>id\<close> is called
  \<open>food_id\<close> here, since \<open>id\<close> is the identity function of HOL. The two optional fields
  are options. JavaScript numbers are modelled as exact rationals. A JavaScript string is
  modelled by the list of its bytes in UTF-8, which for ASCII text is the text itself;
  equality, concatenation and, for well-formed strings, \<^verbatim>\<open>includes\<close> are the same on the
  bytes as on the code units.
\<close>

record FoodItem =
  food_id :: string
  img :: string
  name :: string
  dsc :: string
  price :: rat
  rate :: rat
  country :: string
  category :: "string option"
  uniqueId :: "string option"

text \<open>
  JavaScript truthiness of an optional string field such as \<^verbatim>\<open>item.uniqueId\<close>:
  \<^verbatim>\<open>undefined\<close> and the empty string are falsy.
\<close>

fun truthy :: "string option \<Rightarrow> bool" where
  "truthy None = False"
| "truthy (Some s) = (s \<noteq> [])"

section \<open>The validation cache in localStorage\<close>

text \<open>
  \<^verbatim>\<open>src/hooks/useMenuData.ts\<close> keeps one record per key in \<^verbatim>\<open>localStorage\<close>, written as
  \<^verbatim>\<open>JSON.stringify({foods, timestamp})\<close>. A stored string is modelled by what reading it
  does: \<open>Blank\<close> is the empty string (falsy, so the \<^verbatim>\<open>if (cachedValidation)\<close> branch is
  skipped), \<open>Unparseable\<close> makes \<^verbatim>\<open>JSON.parse\<close> or the destructuring throw, and
  \<open>Parsed r\<close> is the JSON text of the record \<open>r\<close>. Timestamps are the integer
  milliseconds of \<^verbatim>\<open>Date.now()\<close>.
\<close>

record cache_record =
  foods :: "FoodItem list"
  timestamp :: int

datatype stored = Blank | Unparseable | Parsed cache_record

type_synonym storage = "string \<rightharpoonup> stored"

definition MAIN_KEY :: string where
  "MAIN_KEY = ''forkFlameImageValidation''"

definition BEST_KEY :: string where
  "BEST_KEY = ''forkFlameBestFoodsValidation''"

definition TTL :: int where
  "TTL = 24 * 60 * 60 * 1000"

definition isExpired :: "int \<Rightarrow> int \<Rightarrow> bool" where
  "isExpired now ts = (now - ts > TTL)"

definition removeItem :: "string \<Rightarrow> storage \<Rightarrow> storage" where
  "removeItem k st = st(k := None)"

definition setItem :: "string \<Rightarrow> stored \<Rightarrow> storage \<Rightarrow> storage" where
  "setItem k v st = st(k \<mapsto> v)"

text \<open>
  The lazy initialiser of the \<^verbatim>\<open>validatedFoods\<close> state (lines 107-125, and lines 279-297
  for the best-foods key): it returns the initial state value and the storage it leaves.
\<close>

definition readCache :: "string \<Rightarrow> int \<Rightarrow> storage \<Rightarrow> FoodItem list \<times> storage" where
  "readCache k now st =
     (case st k of
        None \<Rightarrow> ([], st)
      | Some Blank \<Rightarrow> ([], st)
      | Some Unparseable \<Rightarrow> ([], removeItem k st)
      | Some (Parsed r) \<Rightarrow>
          if \<not> isExpired now (timestamp r) \<and> length (foods r) > 0 then (foods r, st)
          else if isExpired now (timestamp r) then ([], removeItem k st)
          else ([], st))"

text \<open>The lazy initialiser of the \<^verbatim>\<open>hasValidated\<close> state (lines 129-141).\<close>

definition readHasValidated :: "string \<Rightarrow> int \<Rightarrow> storage \<Rightarrow> bool" where
  "readHasValidated k now st =
     (case st k of
        None \<Rightarrow> False
      | Some Blank \<Rightarrow> False
      | Some Unparseable \<Rightarrow> False
      | Some (Parsed r) \<Rightarrow> \<not> isExpired now (timestamp r))"

section \<open>The category aggregator\<close>

text \<open>
  \<^verbatim>\<open>getAllFoods\<close> of the API service (\<^verbatim>\<open>services/api.ts\<close>). Each of the seven requests
  settles: it is rejected (network error, timeout, non-2xx status), or fulfilled with a
  response whose \<^verbatim>\<open>data\<close> is of type \<^verbatim>\<open>any\<close>. The model keeps the three kinds of
  \<^verbatim>\<open>data\<close> the code tells apart: a falsy value (\<^verbatim>\<open>undefined\<close>, \<^verbatim>\<open>null\<close>, the empty
  string), an array, and a truthy value that is not an array (an object, a non-empty
  string such as a body that did not parse as JSON), on which \<^verbatim>\<open>.map\<close> is not a function.
  A fulfilled result with falsy \<^verbatim>\<open>data\<close> fails the test of line 80 and is skipped without a
  warning.

  The elements of an array are of type \<^verbatim>\<open>any\<close> too. An element is \<^verbatim>\<open>null\<close> (or
  \<^verbatim>\<open>undefined\<close>), on which reading \<^verbatim>\<open>item.id\<close> throws, or it is any other value, from which
  the spread and \<^verbatim>\<open>item.id\<close> read without throwing; such an element is modelled by the
  record of the fields read from it, \<open>food_id\<close> being the text that \<^verbatim>\<open>${item.id}\<close>
  interpolates (the text \<^verbatim>\<open>undefined\<close> when the element has no id).
\<close>

datatype raw_item = Nullish | Item FoodItem

datatype body = Falsy | NonArray | Arr "raw_item list"

datatype settled = Rejected | Fulfilled body

datatype exn = TypeError

definition endpoints :: "string list" where
  "endpoints = [''/burgers'', ''/pizzas'', ''/desserts'', ''/drinks'', ''/bbqs'',
                ''/sandwiches'', ''/steaks'']"

definition categories :: "string list" where
  "categories = [''burgers'', ''pizzas'', ''desserts'', ''drinks'', ''bbqs'',
                 ''sandwiches'', ''steaks'']"

text \<open>Lines 82-87: the spread with \<^verbatim>\<open>category\<close> and \<^verbatim>\<open>uniqueId\<close> overwritten.\<close>

definition stamp :: "string \<Rightarrow> FoodItem \<Rightarrow> FoodItem" where
  "stamp cat item =
     item\<lparr>category := Some cat, uniqueId := Some (food_id item @ ''-'' @ cat)\<rparr>"

text \<open>
  Lines 90-95: the state of the aggregation is the set \<^verbatim>\<open>seenIds\<close> and the array
  \<^verbatim>\<open>allFoods\<close>.
\<close>

type_synonym agg = "string set \<times> FoodItem list"

fun addIfUnseen :: "agg \<Rightarrow> FoodItem \<Rightarrow> agg" where
  "addIfUnseen (seenIds, allFoods) item =
     (case uniqueId item of
        None \<Rightarrow> (seenIds, allFoods)
      | Some u \<Rightarrow>
          if u \<noteq> [] \<and> u \<notin> seenIds then (insert u seenIds, allFoods @ [item])
          else (seenIds, allFoods))"

text \<open>
  Lines 82-87, the \<^verbatim>\<open>.map\<close> that builds \<^verbatim>\<open>categoryData\<close>: it stamps the elements in order
  and throws a \<^verbatim>\<open>TypeError\<close> at the first \<^verbatim>\<open>null\<close> element.
\<close>

fun stampAll :: "string \<Rightarrow> raw_item list \<Rightarrow> exn + FoodItem list" where
  "stampAll cat [] = Inr []"
| "stampAll cat (Nullish # items) = Inl TypeError"
| "stampAll cat (Item f # items) =
     (case stampAll cat items of
        Inl e \<Rightarrow> Inl e
      | Inr categoryData \<Rightarrow> Inr (stamp cat f # categoryData))"

text \<open>
  Lines 80-98, the body of the outer \<^verbatim>\<open>forEach\<close> for one settled result and its
  category. Calling \<^verbatim>\<open>.map\<close> on a truthy non-array throws a \<^verbatim>\<open>TypeError\<close>, and so does
  the callback of \<^verbatim>\<open>.map\<close> on a \<^verbatim>\<open>null\<close> element; the items are added only once the
  whole of \<^verbatim>\<open>categoryData\<close> is built.
\<close>

fun combine :: "agg \<Rightarrow> settled \<times> string \<Rightarrow> exn + agg" where
  "combine a (Fulfilled (Arr items), cat) =
     (case stampAll cat items of
        Inl e \<Rightarrow> Inl e
      | Inr categoryData \<Rightarrow> Inr (foldl addIfUnseen a categoryData))"
| "combine a (Fulfilled NonArray, cat) = Inl TypeError"
| "combine a (Fulfilled Falsy, cat) = Inr a"
| "combine a (Rejected, cat) = Inr a"

text \<open>The outer \<^verbatim>\<open>forEach\<close>: an exception ends it.\<close>

fun forEachResult :: "agg \<Rightarrow> (settled \<times> string) list \<Rightarrow> exn + agg" where
  "forEachResult a [] = Inr a"
| "forEachResult a (r # rs) =
     (case combine a r of Inl e \<Rightarrow> Inl e | Inr a' \<Rightarrow> forEachResult a' rs)"

text \<open>
  The array of the seven settled results, each with the category of its index
  (\<^verbatim>\<open>categories[index]\<close>).
\<close>

definition settledResults :: "(string \<Rightarrow> settled) \<Rightarrow> (settled \<times> string) list" where
  "settledResults http = zip (map http endpoints) categories"

text \<open>
  The \<^verbatim>\<open>try\<close> block of \<^verbatim>\<open>getAllFoods\<close>. The parameter \<open>http\<close> gives, for each endpoint
  path, how \<^verbatim>\<open>apiClient.get\<close> settles; \<^verbatim>\<open>Promise.allSettled\<close> itself never rejects.
\<close>

definition getAllFoods_try :: "(string \<Rightarrow> settled) \<Rightarrow> exn + FoodItem list" where
  "getAllFoods_try http =
     (case forEachResult ({}, []) (settledResults http) of
        Inl e \<Rightarrow> Inl e
      | Inr (seenIds, allFoods) \<Rightarrow> Inr allFoods)"

text \<open>
  \<^verbatim>\<open>getAllFoods\<close> with its \<^verbatim>\<open>catch\<close>: the promise it returns is fulfilled with this
  list in every case.
\<close>

definition getAllFoods :: "(string \<Rightarrow> settled) \<Rightarrow> FoodItem list" where
  "getAllFoods http = (case getAllFoods_try http of Inl e \<Rightarrow> [] | Inr allFoods \<Rightarrow> allFoods)"

section \<open>Search\<close>




section \<open>The image probe\<close>

text \<open>
  \<^verbatim>\<open>checkImageUrl\<close> of \<^verbatim>\<open>src/hooks/useImageValidation.ts\<close>. The promise is a cell that is
  pending or settled; \<^verbatim>\<open>resolve\<close> settles a pending promise and does nothing to a
  settled one. The executor has no \<^verbatim>\<open>reject\<close> parameter and no statement that throws,
  so \<open>RejectedP\<close> is never produced. After the executor has run, the event loop delivers
  callbacks: the timer's, the image's \<^verbatim>\<open>onload\<close> and \<^verbatim>\<open>onerror\<close>. A schedule is the list of
  callbacks in the order the event loop runs them; the timer's callback runs only while
  the timer is armed (\<^verbatim>\<open>clearTimeout\<close> disarms it, and so does firing: the timer is
  one-shot).
\<close>

datatype promise = Pending | ResolvedP bool | RejectedP

datatype callback = TimerFires | ImgOnload | ImgOnerror

record probe_state =
  settledAs :: promise
  timerArmed :: bool

definition resolve :: "bool \<Rightarrow> probe_state \<Rightarrow> probe_state" where
  "resolve v ps = (case settledAs ps of Pending \<Rightarrow> ps\<lparr>settledAs := ResolvedP v\<rparr> | _ \<Rightarrow> ps)"

definition clearTimeout :: "probe_state \<Rightarrow> probe_state" where
  "clearTimeout ps = ps\<lparr>timerArmed := False\<rparr>"

fun runCallback :: "probe_state \<Rightarrow> callback \<Rightarrow> probe_state" where
  "runCallback ps TimerFires = (if timerArmed ps then resolve False (clearTimeout ps) else ps)"
| "runCallback ps ImgOnload = resolve True (clearTimeout ps)"
| "runCallback ps ImgOnerror = resolve False (clearTimeout ps)"

definition checkImageUrl :: "string \<Rightarrow> callback list \<Rightarrow> promise" where
  "checkImageUrl url schedule =
     (if url = [] then ResolvedP False
      else settledAs (foldl runCallback \<lparr>settledAs = Pending, timerArmed = True\<rparr> schedule))"

text \<open>
  The browser around one probe. The timer's callback is due \<open>timeoutMs\<close> milliseconds
  after the call; the image either loads or fails at some time after the call, or never
  settles. The event loop runs the earlier callback first; when both are due at the same
  millisecond the order is the browser's choice (\<open>imgFirstOnTie\<close>). A callback of a timer
  that was cleared is listed but does nothing.
\<close>

datatype img_behaviour = LoadsAt nat | FailsAt nat | NeverSettles

definition eventLoop :: "nat \<Rightarrow> img_behaviour \<Rightarrow> bool \<Rightarrow> callback list" where
  "eventLoop timeoutMs beh imgFirstOnTie =
     (case beh of
        NeverSettles \<Rightarrow> [TimerFires]
      | LoadsAt t \<Rightarrow>
          if t < timeoutMs \<or> (t = timeoutMs \<and> imgFirstOnTie) then [ImgOnload, TimerFires]
          else [TimerFires, ImgOnload]
      | FailsAt t \<Rightarrow>
          if t < timeoutMs \<or> (t = timeoutMs \<and> imgFirstOnTie) then [ImgOnerror, TimerFires]
          else [TimerFires, ImgOnerror])"

text \<open>The image loads within the timeout: its \<^verbatim>\<open>onload\<close> runs before the timer's callback.\<close>

definition loadsInTime :: "nat \<Rightarrow> img_behaviour \<Rightarrow> bool \<Rightarrow> bool" where
  "loadsInTime timeoutMs beh imgFirstOnTie =
     (case beh of LoadsAt t \<Rightarrow> t < timeoutMs \<or> (t = timeoutMs \<and> imgFirstOnTie) | _ \<Rightarrow> False)"

section \<open>The main validator and its hook\<close>

text \<open>
  The state of \<^verbatim>\<open>useAllFoodsWithValidation\<close>: its four \<^verbatim>\<open>useState\<close> cells, the query's
  \<^verbatim>\<open>result.data\<close> (\<open>None\<close> for \<^verbatim>\<open>undefined\<close>) and \<^verbatim>\<open>localStorage\<close>. Two history fields
  are added: \<open>progressLog\<close> lists every value given to \<^verbatim>\<open>setValidationProgress\<close>, oldest
  first, and \<open>probed\<close> lists the batches whose images were handed to \<^verbatim>\<open>checkImageUrl\<close>,
  in call order.
\<close>

record hook =
  validatedFoods :: "FoodItem list"
  isValidating :: bool
  validationProgress :: rat
  hasValidated :: bool
  queryData :: "FoodItem list option"
  localStorage :: storage
  progressLog :: "rat list"
  probed :: "FoodItem list list"

text \<open>
  How one call of the probe settles. The validator gets the probe from the hook
  \<^verbatim>\<open>useImageValidation\<close>; here it is the parameter \<open>chk\<close>, which gives the settlement of
  the call for the item at a position of the window with a given url. The \<^verbatim>\<open>await\<close> is
  taken to return: the probe settles.
\<close>

datatype probe_result = Resolves bool | Rejects

type_synonym probe = "nat \<Rightarrow> string \<Rightarrow> probe_result"

definition batchSize :: "bool \<Rightarrow> nat" where
  "batchSize isMobile = (if isMobile then 10 else 50)"

definition windowSize :: "bool \<Rightarrow> nat" where
  "windowSize isMobile = (if isMobile then 30 else 80)"

text \<open>\<^verbatim>\<open>Array.prototype.slice(a, b)\<close> for \<open>0 \<le> a\<close>.\<close>

definition slice :: "nat \<Rightarrow> nat \<Rightarrow> 'a list \<Rightarrow> 'a list" where
  "slice a b xs = take (b - a) (drop a xs)"

text \<open>
  Lines 188-198: the probes of one batch, each inside its \<^verbatim>\<open>try\<close>; a rejected probe
  counts as invalid. \<open>i\<close> is the window position of the first item of the batch.
\<close>

definition isValidAt :: "probe \<Rightarrow> nat \<Rightarrow> FoodItem \<Rightarrow> bool" where
  "isValidAt chk k food = (case chk k (img food) of Resolves b \<Rightarrow> b | Rejects \<Rightarrow> False)"

definition probeBatch :: "probe \<Rightarrow> nat \<Rightarrow> FoodItem list \<Rightarrow> (FoodItem \<times> bool) list" where
  "probeBatch chk i batch =
     map (\<lambda>(k, food). (food, isValidAt chk k food)) (zip [i..<i + length batch] batch)"

definition setValidationProgress :: "rat \<Rightarrow> hook \<Rightarrow> hook" where
  "setValidationProgress p h = h\<lparr>validationProgress := p, progressLog := progressLog h @ [p]\<rparr>"

text \<open>The local arrays of \<^verbatim>\<open>validateImages\<close> together with the hook state.\<close>

record loop_state =
  validFirst :: "FoodItem list"
  invalidWithinValidated :: "FoodItem list"
  hk :: hook

text \<open>Lines 199-202.\<close>

fun pushResult :: "loop_state \<Rightarrow> FoodItem \<times> bool \<Rightarrow> loop_state" where
  "pushResult ls (food, isValid) =
     (if isValid then ls\<lparr>validFirst := validFirst ls @ [food]\<rparr>
      else ls\<lparr>invalidWithinValidated := invalidWithinValidated ls @ [food]\<rparr>)"

text \<open>The progress value of line 205.\<close>

definition batchProgress :: "nat \<Rightarrow> nat \<Rightarrow> nat \<Rightarrow> rat" where
  "batchProgress i bs n = min ((of_nat (i + bs) / of_nat n) * 100) 100"

text \<open>
  The \<^verbatim>\<open>for\<close> loop of lines 184-212. The pause of lines 209-211 on mobile changes no
  state and is left out.
\<close>

function validateLoop :: "bool \<Rightarrow> probe \<Rightarrow> FoodItem list \<Rightarrow> nat \<Rightarrow> loop_state \<Rightarrow> loop_state" where
  "validateLoop isMobile chk toValidate i ls =
     (if i < length toValidate then
        let batch = slice i (i + batchSize isMobile) toValidate;
            batchResults = probeBatch chk i batch;
            ls1 = foldl pushResult ls batchResults;
            progress = batchProgress i (batchSize isMobile) (length toValidate);
            ls2 = ls1\<lparr>hk := setValidationProgress progress
                           ((hk ls1)\<lparr>probed := probed (hk ls1) @ [batch]\<rparr>)\<rparr>
        in validateLoop isMobile chk toValidate (i + batchSize isMobile) ls2
      else ls)"
  by pat_completeness auto
termination
  by (relation "measure (\<lambda>(isMobile, chk, toValidate, i, ls). length toValidate - i)")
     (auto simp: batchSize_def)

declare validateLoop.simps [simp del]

text \<open>
  \<^verbatim>\<open>validateImages\<close> (lines 173-230). It is a closure of one render: \<open>captured\<close> is the
  value the constant \<^verbatim>\<open>validatedFoods\<close> had in that render, which is what line 223 reads;
  \<open>now\<close> is \<^verbatim>\<open>Date.now()\<close> at line 224. \<^verbatim>\<open>localStorage.setItem\<close> is taken to succeed.
\<close>

definition validateImages ::
  "bool \<Rightarrow> probe \<Rightarrow> FoodItem list \<Rightarrow> int \<Rightarrow> FoodItem list \<Rightarrow> hook \<Rightarrow> hook" where
  "validateImages isMobile chk captured now fs h =
     (let h0 = setValidationProgress 0 h;
          validateLimit = min (length fs) (windowSize isMobile);
          toValidate = slice 0 validateLimit fs;
          remaining = drop validateLimit fs;
          ls = validateLoop isMobile chk toValidate 0
                 \<lparr>validFirst = [], invalidWithinValidated = [], hk = h0\<rparr>;
          reordered = validFirst ls @ invalidWithinValidated ls @ remaining;
          h1 = (hk ls)\<lparr>validatedFoods := reordered, isValidating := False\<rparr>;
          h2 = setValidationProgress 100 h1;
          cacheData = \<lparr>foods = captured, timestamp = now\<rparr>
      in h2\<lparr>localStorage := setItem MAIN_KEY (Parsed cacheData) (localStorage h2)\<rparr>)"

text \<open>
  The network information of lines 155-158: \<^verbatim>\<open>navigator.connection\<close>, when there is one,
  with its \<^verbatim>\<open>saveData\<close> flag and \<^verbatim>\<open>effectiveType\<close>. The regular expression
  \<^verbatim>\<open>/(^|-)2g$/\<close> accepts \<^verbatim>\<open>2g\<close> and every text that ends in \<^verbatim>\<open>-2g\<close>.
\<close>

record connection =
  saveData :: bool
  effectiveType :: string

definition isSlow :: "string \<Rightarrow> bool" where
  "isSlow et = (et = ''2g'' \<or> suffix ''-2g'' et)"

definition constrained :: "connection option \<Rightarrow> bool" where
  "constrained conn = (case conn of None \<Rightarrow> False | Some c \<Rightarrow> saveData c \<or> isSlow (effectiveType c))"

text \<open>
  The validation effect (lines 152-170), run for the render whose state is \<open>h\<close>; the
  \<^verbatim>\<open>validateImages\<close> it calls is the closure of that same render.
\<close>

definition validationEffect :: "bool \<Rightarrow> connection option \<Rightarrow> probe \<Rightarrow> int \<Rightarrow> hook \<Rightarrow> hook" where
  "validationEffect isMobile conn chk now h =
     (case queryData h of
        None \<Rightarrow> h
      | Some d \<Rightarrow>
          if length d > 0 \<and> \<not> hasValidated h \<and> length (validatedFoods h) = 0 then
            if isMobile \<and> constrained conn then h\<lparr>hasValidated := True, isValidating := False\<rparr>
            else (validateImages isMobile chk (validatedFoods h) now d
                    (h\<lparr>isValidating := True\<rparr>))\<lparr>hasValidated := True\<rparr>
          else h)"


text \<open>
  The first render of the hook: the lazy initialisers of lines 107-141, the second reading
  the storage the first one left. Both are taken to read the same clock value.
\<close>

definition mountHook :: "int \<Rightarrow> storage \<Rightarrow> hook" where
  "mountHook now st =
     (let (vf, st1) = readCache MAIN_KEY now st
      in \<lparr>validatedFoods = vf, isValidating = False, validationProgress = 0,
          hasValidated = readHasValidated MAIN_KEY now st1, queryData = None,
          localStorage = st1, progressLog = [], probed = []\<rparr>)"

text \<open>
  The query (lines 143-149) delivers what \<^verbatim>\<open>getAllFoods\<close> resolved to. It fetches only
  while \<^verbatim>\<open>validatedFoods\<close> is empty.
\<close>

definition queryDelivers :: "(string \<Rightarrow> settled) \<Rightarrow> hook \<Rightarrow> hook" where
  "queryDelivers http h =
     (if length (validatedFoods h) = 0 then h\<lparr>queryData := Some (getAllFoods http)\<rparr> else h)"






definition ret_validCount :: "hook \<Rightarrow> nat" where
  "ret_validCount h = length (validatedFoods h)"

definition ret_totalCount :: "hook \<Rightarrow> nat" where
  "ret_totalCount h = (case queryData h of None \<Rightarrow> 0 | Some d \<Rightarrow> length d)"

section \<open>The best-foods validator\<close>

text \<open>
  \<^verbatim>\<open>validateBestFoodsImages\<close> of \<^verbatim>\<open>useBestFoods\<close> (lines 340-375): every item is probed
  at once, and the items whose probe did not resolve to \<^verbatim>\<open>true\<close> become \<^verbatim>\<open>null\<close> and are
  filtered out.
\<close>

record best_hook =
  validatedBestFoods :: "FoodItem list"
  bestIsValidating :: bool
  bestHasValidated :: bool
  bestStorage :: storage

definition validateBestFoodsImages :: "probe \<Rightarrow> int \<Rightarrow> FoodItem list \<Rightarrow> best_hook \<Rightarrow> best_hook" where
  "validateBestFoodsImages chk now fs b =
     (let validationResults =
            map (\<lambda>(k, food). if isValidAt chk k food then Some food else None)
                (zip [0..<length fs] fs);
          validFoods = map the (filter (\<lambda>r. r \<noteq> None) validationResults);
          b1 = b\<lparr>validatedBestFoods := validFoods, bestIsValidating := False\<rparr>;
          cacheData = \<lparr>foods = validFoods, timestamp = now\<rparr>
      in b1\<lparr>bestStorage := setItem BEST_KEY (Parsed cacheData) (bestStorage b1)\<rparr>)"

section \<open>Notions used in the statements\<close>

text \<open>
  The items of a list, from position \<open>k\<close> on, that satisfy a predicate of position and
  item; \<open>keepFrom_enumerate\<close> below says it is a \<open>filter\<close> over the enumerated list.
\<close>

fun keepFrom :: "(nat \<Rightarrow> FoodItem \<Rightarrow> bool) \<Rightarrow> nat \<Rightarrow> FoodItem list \<Rightarrow> FoodItem list" where
  "keepFrom P k [] = []"
| "keepFrom P k (f # fs) = (if P k f then f # keepFrom P (Suc k) fs else keepFrom P (Suc k) fs)"



text \<open>
  The progress values the specification prescribes for one pass: after the \<open>j\<close>-th batch
  the items probed so far are \<open>min (j * bs) n\<close> of a window of \<open>n\<close>, and the value is
  that share times 100, capped at 100. A pass over a catalog of \<open>len\<close> items starts at 0,
  has one value per batch and ends with 100.
\<close>

definition probedShare :: "nat \<Rightarrow> nat \<Rightarrow> nat \<Rightarrow> rat" where
  "probedShare bs n j = min ((of_nat (min (j * bs) n) / of_nat n) * 100) 100"

definition passProgress :: "bool \<Rightarrow> nat \<Rightarrow> rat list" where
  "passProgress isMobile len =
     [0] @
     map (probedShare (batchSize isMobile) (min len (windowSize isMobile)))
       [1..<Suc ((min len (windowSize isMobile) + batchSize isMobile - 1) div batchSize isMobile)] @
     [100]"

text \<open>
  The records of the elements of an array that are not \<^verbatim>\<open>null\<close>, the stamped items a
  settled result contributes, and the list that keeps, of a list, each item whose
  \<^verbatim>\<open>uniqueId\<close> did not occur earlier in it (first-seen order).
\<close>

fun records :: "raw_item list \<Rightarrow> FoodItem list" where
  "records [] = []"
| "records (Nullish # items) = records items"
| "records (Item f # items) = f # records items"

fun itemsOf :: "settled \<times> string \<Rightarrow> FoodItem list" where
  "itemsOf (Fulfilled (Arr items), cat) = map (stamp cat) (records items)"
| "itemsOf (r, cat) = []"

definition firstSeen :: "FoodItem list \<Rightarrow> FoodItem list" where
  "firstSeen xs =
     map (\<lambda>k. xs ! k)
       (filter (\<lambda>k. uniqueId (xs ! k) \<notin> set (map uniqueId (take k xs))) [0..<length xs])"

text \<open>
  A settled result on which the body of the outer \<^verbatim>\<open>forEach\<close> throws: fulfilled with a
  truthy body that is not an array, or with an array that holds \<^verbatim>\<open>null\<close>.
\<close>

fun throwsOn :: "settled \<Rightarrow> bool" where
  "throwsOn (Fulfilled NonArray) = True"
| "throwsOn (Fulfilled (Arr items)) = (Nullish \<in> set items)"
| "throwsOn r = False"

text \<open>The raw ids of one response are pairwise different.\<close>

fun idsDistinct :: "settled \<Rightarrow> bool" where
  "idsDistinct (Fulfilled (Arr items)) = distinct (map food_id (records items))"
| "idsDistinct r = True"





section \<open>Sample data\<close>

definition ex_burger :: FoodItem where
  "ex_burger = \<lparr>food_id = ''5'', img = ''https://img.example/burger.png'', name = ''Big Burger'',
     dsc = ''Juicy beef'', price = 10, rate = 4, country = ''US'', category = None,
     uniqueId = None\<rparr>"

definition ex_pizza :: FoodItem where
  "ex_pizza = \<lparr>food_id = ''5'', img = ''https://img.example/pizza.png'', name = ''Pizza'',
     dsc = ''Cheesy BURrata'', price = 12, rate = 5, country = ''IT'', category = None,
     uniqueId = None\<rparr>"

definition ex_soda :: FoodItem where
  "ex_soda = \<lparr>food_id = ''7'', img = [], name = ''Soda'', dsc = ''Cold'', price = 2, rate = 3,
     country = ''US'', category = None, uniqueId = None\<rparr>"

definition ex_best_hook :: best_hook where
  "ex_best_hook = \<lparr>validatedBestFoods = [], bestIsValidating = True, bestHasValidated = False,
     bestStorage = Map.empty\<rparr>"

definition ex_http_two :: "string \<Rightarrow> settled" where
  "ex_http_two e =
     (if e = ''/burgers'' then Fulfilled (Arr [Item ex_burger, Item ex_soda])
      else if e = ''/pizzas'' then Fulfilled (Arr [Item ex_pizza]) else Rejected)"

definition ex_http_malformed :: "string \<Rightarrow> settled" where
  "ex_http_malformed e =
     (if e = ''/burgers'' then Fulfilled (Arr [Item ex_burger])
      else if e = ''/pizzas'' then Fulfilled NonArray else Rejected)"

definition ex_http_null :: "string \<Rightarrow> settled" where
  "ex_http_null e =
     (if e = ''/burgers'' then Fulfilled (Arr [Item ex_burger])
      else if e = ''/pizzas'' then Fulfilled (Arr [Item ex_pizza, Nullish]) else Rejected)"


definition ex_http_down :: "string \<Rightarrow> settled" where
  "ex_http_down e = Rejected"

definition ex_http_burgers :: "string \<Rightarrow> settled" where
  "ex_http_burgers e =
     (if e = ''/burgers'' then Fulfilled (Arr [Item ex_burger, Item ex_soda]) else Rejected)"

definition ex_probe :: probe where
  "ex_probe k url = (if url = [] then Resolves False else Resolves True)"

definition ex_validated :: hook where
  "ex_validated =
     validationEffect False None ex_probe 777 (queryDelivers ex_http_burgers (mountHook 0 Map.empty))"






section \<open>Properties of the cache\<close>

text \<open>
  C5. A record with timestamp \<open>T\<close> read at time \<open>now\<close>: while \<open>now - T\<close> is at most 24
  hours the read returns the cached items and leaves the store alone; once \<open>now - T\<close>
  exceeds 24 hours the read returns no items and removes the record from the store. In
  particular the record is served at \<open>T + 24h - 1\<close> and dropped at \<open>T + 24h + 1\<close>.
\<close>

theorem cache_ttl_boundary:
  "st MAIN_KEY = Some (Parsed \<lparr>foods = fs, timestamp = T\<rparr>) \<Longrightarrow>
     (now - T \<le> 24 * 60 * 60 * 1000 \<longrightarrow> readCache MAIN_KEY now st = (fs, st)) \<and>
     (now - T > 24 * 60 * 60 * 1000 \<longrightarrow>
        fst (readCache MAIN_KEY now st) = [] \<and>
        snd (readCache MAIN_KEY now st) MAIN_KEY = None \<and>
        (\<forall>k. k \<noteq> MAIN_KEY \<longrightarrow> snd (readCache MAIN_KEY now st) k = st k)) \<and>
     readCache MAIN_KEY (T + 24 * 60 * 60 * 1000 - 1) st = (fs, st) \<and>
     fst (readCache MAIN_KEY (T + 24 * 60 * 60 * 1000 + 1) st) = [] \<and>
     snd (readCache MAIN_KEY (T + 24 * 60 * 60 * 1000 + 1) st) MAIN_KEY = None"
  by (cases fs) (simp_all add: readCache_def isExpired_def TTL_def removeItem_def)

theorem cache_ttl_boundary_witness:
  "[MAIN_KEY \<mapsto> Parsed \<lparr>foods = [ex_burger], timestamp = 1000\<rparr>] MAIN_KEY =
     Some (Parsed \<lparr>foods = [ex_burger], timestamp = 1000\<rparr>) \<and>
   readCache MAIN_KEY (1000 + 86400000 - 1)
     [MAIN_KEY \<mapsto> Parsed \<lparr>foods = [ex_burger], timestamp = 1000\<rparr>] =
     ([ex_burger], [MAIN_KEY \<mapsto> Parsed \<lparr>foods = [ex_burger], timestamp = 1000\<rparr>]) \<and>
   fst (readCache MAIN_KEY (1000 + 86400000 + 1)
     [MAIN_KEY \<mapsto> Parsed \<lparr>foods = [ex_burger], timestamp = 1000\<rparr>]) = [] \<and>
   snd (readCache MAIN_KEY (1000 + 86400000 + 1)
     [MAIN_KEY \<mapsto> Parsed \<lparr>foods = [ex_burger], timestamp = 1000\<rparr>]) MAIN_KEY = None"
  using cache_ttl_boundary
    [of "[MAIN_KEY \<mapsto> Parsed \<lparr>foods = [ex_burger], timestamp = 1000\<rparr>]" "[ex_burger]" 1000 0]
  by simp

section \<open>Properties of search\<close>





section \<open>Properties of the validators\<close>

lemma keepFrom_append:
  "keepFrom P k (xs @ ys) = keepFrom P k xs @ keepFrom P (k + length xs) ys"
  by (induction xs arbitrary: k) simp_all

lemma keepFrom_enumerate:
  "keepFrom P k xs = map snd (filter (\<lambda>(j, f). P j f) (enumerate k xs))"
  by (induction xs arbitrary: k) simp_all

lemma mset_keepFrom:
  "mset (keepFrom P k xs) + mset (keepFrom (\<lambda>j f. \<not> P j f) k xs) = mset xs"
  by (induction xs arbitrary: k) simp_all

lemma probeBatch_Cons:
  "probeBatch chk i (f # fs) = (f, isValidAt chk i f) # probeBatch chk (Suc i) fs"
  by (simp add: probeBatch_def upt_rec)

lemma probeBatch_Nil: "probeBatch chk i [] = []"
  by (simp add: probeBatch_def)

lemma pushResult_step:
  "pushResult ls (f, b) =
     ls\<lparr>validFirst := validFirst ls @ (if b then [f] else []),
        invalidWithinValidated := invalidWithinValidated ls @ (if b then [] else [f])\<rparr>"
  by simp

lemma push_batch:
  "foldl pushResult ls (probeBatch chk i batch) =
     ls\<lparr>validFirst := validFirst ls @ keepFrom (isValidAt chk) i batch,
        invalidWithinValidated :=
          invalidWithinValidated ls @ keepFrom (\<lambda>k f. \<not> isValidAt chk k f) i batch\<rparr>"
proof (induction batch arbitrary: ls i)
  case Nil
  show ?case by (simp add: probeBatch_Nil)
next
  case (Cons f fs)
  have "foldl pushResult ls (probeBatch chk i (f # fs)) =
        foldl pushResult (pushResult ls (f, isValidAt chk i f)) (probeBatch chk (Suc i) fs)"
    by (simp only: probeBatch_Cons foldl_Cons)
  also have "\<dots> = (pushResult ls (f, isValidAt chk i f))
     \<lparr>validFirst := validFirst (pushResult ls (f, isValidAt chk i f)) @ keepFrom (isValidAt chk) (Suc i) fs,
        invalidWithinValidated :=
          invalidWithinValidated (pushResult ls (f, isValidAt chk i f)) @
          keepFrom (\<lambda>k f. \<not> isValidAt chk k f) (Suc i) fs\<rparr>"
    by (rule Cons.IH)
  also have "\<dots> = ls\<lparr>validFirst := validFirst ls @ keepFrom (isValidAt chk) i (f # fs),
        invalidWithinValidated :=
          invalidWithinValidated ls @ keepFrom (\<lambda>k f. \<not> isValidAt chk k f) i (f # fs)\<rparr>"
    by (cases "isValidAt chk i f") (simp_all del: pushResult.simps add: pushResult_step)
  finally show ?case .
qed

lemma slice_split: "drop i tv = slice i (i + bs) tv @ drop (i + bs) tv"
proof -
  have a: "take bs (drop i tv) @ drop bs (drop i tv) = drop i tv" by (rule append_take_drop_id)
  have b: "drop bs (drop i tv) = drop (i + bs) tv" by (simp only: drop_drop add.commute)
  have c: "slice i (i + bs) tv = take bs (drop i tv)" by (simp add: slice_def)
  show ?thesis using a b c by simp
qed

lemma keepFrom_split_batch:
  "keepFrom P i (drop i tv) =
     keepFrom P i (slice i (i + bs) tv) @ keepFrom P (i + bs) (drop (i + bs) tv)"
proof (cases "i + bs \<le> length tv")
  case True
  then have len: "length (slice i (i + bs) tv) = bs" by (simp add: slice_def)
  have "keepFrom P i (drop i tv) = keepFrom P i (slice i (i + bs) tv @ drop (i + bs) tv)"
    using slice_split [of i tv bs] by simp
  also have "\<dots> = keepFrom P i (slice i (i + bs) tv) @ keepFrom P (i + bs) (drop (i + bs) tv)"
    by (simp only: keepFrom_append len)
  finally show ?thesis .
next
  case False
  then have e: "drop (i + bs) tv = []" by simp
  have "drop i tv = slice i (i + bs) tv" using slice_split [of i tv bs] e by simp
  then show ?thesis using e by simp
qed

lemma batches_step:
  assumes "0 < bs" "i < n"
  shows "(n - i + bs - 1) div bs = Suc ((n - (i + bs) + bs - 1) div bs)"
proof (cases "i + bs \<le> n")
  case True
  then have "n - i + bs - 1 = (n - (i + bs) + bs - 1) + bs" using assms by arith
  then have "(n - i + bs - 1) div bs = ((n - (i + bs) + bs - 1) + bs) div bs" by (rule arg_cong)
  also have "\<dots> = Suc ((n - (i + bs) + bs - 1) div bs)" using assms(1) by (simp only: div_add_self2)
  finally show ?thesis .
next
  case False
  then have a: "n - (i + bs) + bs - 1 = bs - 1" by arith
  have b: "(bs - 1) div bs = 0" using assms by (intro div_less) arith
  have r1: "n - i + bs - 1 = (n - i - 1) + bs" using assms by arith
  have r2: "n - i - 1 < bs" using assms False by arith
  have "((n - i - 1) + bs) div bs = (n - i - 1) div bs + 1" using assms(1) by (simp only: div_add_self2)
  also have "\<dots> = Suc 0" using r2 by simp
  finally have c: "((n - i - 1) + bs) div bs = Suc 0" .
  show ?thesis by (simp only: a b r1 c)
qed

lemma validateLoop_done: "\<not> i < length tv \<Longrightarrow> validateLoop m chk tv i ls = ls"
  by (subst validateLoop.simps) simp

lemma validateLoop_step:
  "i < length tv \<Longrightarrow>
   validateLoop m chk tv i ls =
     validateLoop m chk tv (i + batchSize m)
       ((foldl pushResult ls (probeBatch chk i (slice i (i + batchSize m) tv)))
          \<lparr>hk := setValidationProgress (batchProgress i (batchSize m) (length tv))
                   ((hk ls)\<lparr>probed := probed (hk ls) @ [slice i (i + batchSize m) tv]\<rparr>)\<rparr>)"
  by (subst validateLoop.simps) (simp add: Let_def push_batch)

lemma validateLoop_validFirst:
  "validFirst (validateLoop m chk tv i ls) =
     validFirst ls @ keepFrom (isValidAt chk) i (drop i tv)"
proof (induction m chk tv i ls rule: validateLoop.induct)
  case (1 m chk tv i ls)
  show ?case
  proof (cases "i < length tv")
    case False
    then show ?thesis by (simp add: validateLoop_done)
  next
    case True
    show ?thesis
      using "1.IH" [OF True refl refl refl refl refl]
      by (simp add: validateLoop_step [OF True] push_batch
            keepFrom_split_batch [of _ i tv "batchSize m"])
  qed
qed

lemma validateLoop_invalid:
  "invalidWithinValidated (validateLoop m chk tv i ls) =
     invalidWithinValidated ls @ keepFrom (\<lambda>k f. \<not> isValidAt chk k f) i (drop i tv)"
proof (induction m chk tv i ls rule: validateLoop.induct)
  case (1 m chk tv i ls)
  show ?case
  proof (cases "i < length tv")
    case False
    then show ?thesis by (simp add: validateLoop_done)
  next
    case True
    show ?thesis
      using "1.IH" [OF True refl refl refl refl refl]
      by (simp add: validateLoop_step [OF True] push_batch
            keepFrom_split_batch [of _ i tv "batchSize m"])
  qed
qed






lemma upt_Suc_shift: "[0..<Suc k] = 0 # map Suc [0..<k]"
  by (simp only: upt_conv_Cons [of 0 "Suc k"] map_Suc_upt)

lemma validateLoop_progressLog:
  "progressLog (hk (validateLoop m chk tv i ls)) =
     progressLog (hk ls) @
     map (\<lambda>j. batchProgress (i + j * batchSize m) (batchSize m) (length tv))
       [0..<(length tv - i + batchSize m - 1) div batchSize m]"
proof (induction m chk tv i ls rule: validateLoop.induct)
  case (1 m chk tv i ls)
  have pos: "0 < batchSize m" by (simp add: batchSize_def)
  show ?case
  proof (cases "i < length tv")
    case False
    then have "length tv - i + batchSize m - 1 = batchSize m - 1" by arith
    moreover have "(batchSize m - 1) div batchSize m = 0" using pos by (intro div_less) arith
    ultimately show ?thesis using False by (simp add: validateLoop_done)
  next
    case True
    have shift: "\<And>j. i + batchSize m + j * batchSize m = i + Suc j * batchSize m" by simp
    show ?thesis
      using "1.IH" [OF True refl refl refl refl refl]
      by (simp only: validateLoop_step [OF True] batches_step [OF pos True] upt_Suc_shift shift)
         (simp add: push_batch setValidationProgress_def comp_def)
  qed
qed

lemma validateLoop_frame:
  "validatedFoods (hk (validateLoop m chk tv i ls)) = validatedFoods (hk ls) \<and>
   isValidating (hk (validateLoop m chk tv i ls)) = isValidating (hk ls) \<and>
   hasValidated (hk (validateLoop m chk tv i ls)) = hasValidated (hk ls) \<and>
   queryData (hk (validateLoop m chk tv i ls)) = queryData (hk ls) \<and>
   localStorage (hk (validateLoop m chk tv i ls)) = localStorage (hk ls)"
proof (induction m chk tv i ls rule: validateLoop.induct)
  case (1 m chk tv i ls)
  show ?case
  proof (cases "i < length tv")
    case False
    then show ?thesis by (simp add: validateLoop_done)
  next
    case True
    show ?thesis
      using "1.IH" [OF True refl refl refl refl refl]
      by (simp add: validateLoop_step [OF True] push_batch setValidationProgress_def)
  qed
qed

lemma take_min_length: "take (min (length fs) w) fs = take w fs"
  by (simp add: min_def)

lemma drop_min_length: "drop (min (length fs) w) fs = drop w fs"
  by (simp add: min_def)

lemma validateImages_validatedFoods:
  "validatedFoods (validateImages m chk cap now fs h) =
     keepFrom (isValidAt chk) 0 (take (windowSize m) fs) @
     keepFrom (\<lambda>k f. \<not> isValidAt chk k f) 0 (take (windowSize m) fs) @
     drop (windowSize m) fs"
  by (simp add: validateImages_def Let_def setValidationProgress_def slice_def
        validateLoop_validFirst validateLoop_invalid take_min_length drop_min_length)


lemma validateImages_storage:
  "localStorage (validateImages m chk cap now fs h) =
     (localStorage h)(MAIN_KEY \<mapsto> Parsed \<lparr>foods = cap, timestamp = now\<rparr>)"
  by (simp add: validateImages_def Let_def setValidationProgress_def setItem_def
        validateLoop_frame)

lemma validateImages_frame:
  "isValidating (validateImages m chk cap now fs h) = False \<and>
   validationProgress (validateImages m chk cap now fs h) = 100 \<and>
   hasValidated (validateImages m chk cap now fs h) = hasValidated h \<and>
   queryData (validateImages m chk cap now fs h) = queryData h"
  by (simp add: validateImages_def Let_def setValidationProgress_def validateLoop_frame)

lemma validateImages_progressLog:
  "progressLog (validateImages m chk cap now fs h) =
     progressLog h @ [0] @
     map (\<lambda>j. batchProgress (j * batchSize m) (batchSize m) (min (length fs) (windowSize m)))
       [0..<(min (length fs) (windowSize m) + batchSize m - 1) div batchSize m] @ [100]"
  by (simp add: validateImages_def Let_def setValidationProgress_def slice_def
        validateLoop_progressLog)


lemma validateImages_mset:
  "mset (validatedFoods (validateImages m chk cap now fs h)) = mset fs"
proof -
  have "mset (validatedFoods (validateImages m chk cap now fs h)) =
        (mset (keepFrom (isValidAt chk) 0 (take (windowSize m) fs)) +
         mset (keepFrom (\<lambda>k f. \<not> isValidAt chk k f) 0 (take (windowSize m) fs))) +
        mset (drop (windowSize m) fs)"
    by (simp add: validateImages_validatedFoods)
  also have "\<dots> = mset (take (windowSize m) fs) + mset (drop (windowSize m) fs)"
    by (simp only: mset_keepFrom)
  also have "\<dots> = mset fs"
    by (metis append_take_drop_id mset_append)
  finally show ?thesis .
qed

lemma validateBest_result:
  "validatedBestFoods (validateBestFoodsImages chk now fs b) = keepFrom (isValidAt chk) 0 fs"
proof -
  have gen: "\<And>k. map the (filter (\<lambda>r. r \<noteq> None)
               (map (\<lambda>(j, food). if isValidAt chk j food then Some food else None)
                 (zip [k..<k + length fs] fs))) = keepFrom (isValidAt chk) k fs"
  proof (induction fs)
    case Nil
    show ?case by simp
  next
    case (Cons f fs)
    have "[k..<k + length (f # fs)] = k # [Suc k..<Suc k + length fs]"
      by (subst upt_rec) simp
    then show ?case using Cons.IH [of "Suc k"] by simp
  qed
  show ?thesis using gen [of 0] by (simp add: validateBestFoodsImages_def Let_def)
qed

lemma length_filter_all: "(length (filter P xs) = length xs) = list_all P xs"
proof (induction xs)
  case Nil
  show ?case by simp
next
  case (Cons x xs)
  have le: "length (filter P xs) \<le> length xs" by (rule length_filter_le)
  show ?case
  proof (cases "P x")
    case True
    then show ?thesis using Cons.IH by simp
  next
    case False
    have "length (filter P xs) \<noteq> Suc (length xs)" using le by arith
    then show ?thesis using False by simp
  qed
qed

text \<open>
  What the two validators return. A pass of the main validator returns a permutation of
  its input, so a list of the same length. The best-foods validator returns the items
  whose probe resolved to true, in their order, so its output is at most as long as its
  input, and as long exactly when every probe resolved to true.
\<close>

lemma validation_length:
  "mset (validatedFoods (validateImages m chk cap now fs h)) = mset fs \<and>
   length (validatedFoods (validateImages m chk cap now fs h)) = length fs \<and>
   validatedBestFoods (validateBestFoodsImages chk now fs b) =
     map snd (filter (\<lambda>(k, f). isValidAt chk k f) (enumerate 0 fs)) \<and>
   length (validatedBestFoods (validateBestFoodsImages chk now fs b)) \<le> length fs \<and>
   (length (validatedBestFoods (validateBestFoodsImages chk now fs b)) = length fs) =
     list_all (\<lambda>(k, f). isValidAt chk k f) (enumerate 0 fs)"
proof -
  have a: "mset (validatedFoods (validateImages m chk cap now fs h)) = mset fs"
    by (rule validateImages_mset)
  have b: "length (validatedFoods (validateImages m chk cap now fs h)) = length fs"
    using a by (rule mset_eq_length)
  have c: "validatedBestFoods (validateBestFoodsImages chk now fs b) =
     map snd (filter (\<lambda>(k, f). isValidAt chk k f) (enumerate 0 fs))"
    by (simp only: validateBest_result keepFrom_enumerate)
  have d: "length (filter (\<lambda>(k, f). isValidAt chk k f) (enumerate 0 fs)) \<le> length fs"
    using length_filter_le [of "\<lambda>(k, f). isValidAt chk k f" "enumerate 0 fs"] by simp
  have e: "(length (filter (\<lambda>(k, f). isValidAt chk k f) (enumerate 0 fs)) = length fs) =
     list_all (\<lambda>(k, f). isValidAt chk k f) (enumerate 0 fs)"
    using length_filter_all [of "\<lambda>(k, f). isValidAt chk k f" "enumerate 0 fs"] by simp
  show ?thesis using a b d e by (simp add: c)
qed

text \<open>
  C3 does not hold of the code. The claim: every validation pass, that of the best-foods
  path included, returns a list as long as its input and only reorders. A pass of the
  main validator does, for every input: its output is a permutation of the catalog. A
  pass of the best-foods validator returns the items whose probe resolved to true and no
  others; for a catalog of one item whose image does not load it returns the empty list:
  the item is dropped, from the state and from the record the pass caches, where the main
  validator keeps it.
\<close>

theorem best_foods_pass_drops_item:
  "mset (validatedFoods (validateImages m chk cap now fs h)) = mset fs \<and>
   length (validatedFoods (validateImages m chk cap now fs h)) = length fs \<and>
   validatedBestFoods (validateBestFoodsImages chk now fs b) =
     map snd (filter (\<lambda>(k, f). isValidAt chk k f) (enumerate 0 fs)) \<and>
   validatedBestFoods
     (validateBestFoodsImages (\<lambda>k u. Resolves False) 0 [ex_burger] ex_best_hook) = [] \<and>
   bestStorage
     (validateBestFoodsImages (\<lambda>k u. Resolves False) 0 [ex_burger] ex_best_hook) BEST_KEY =
     Some (Parsed \<lparr>foods = [], timestamp = 0\<rparr>) \<and>
   length (validatedBestFoods
     (validateBestFoodsImages (\<lambda>k u. Resolves False) 0 [ex_burger] ex_best_hook)) \<noteq>
   length [ex_burger] \<and>
   validatedFoods
     (validateImages False (\<lambda>k u. Resolves False) [] 0 [ex_burger] (mountHook 0 Map.empty)) =
   [ex_burger]"
proof -
  have g: "mset (validatedFoods (validateImages m chk cap now fs h)) = mset fs \<and>
     length (validatedFoods (validateImages m chk cap now fs h)) = length fs \<and>
     validatedBestFoods (validateBestFoodsImages chk now fs b) =
       map snd (filter (\<lambda>(k, f). isValidAt chk k f) (enumerate 0 fs))"
    using validation_length [of m chk cap now fs h b] by blast
  have c: "validatedBestFoods
       (validateBestFoodsImages (\<lambda>k u. Resolves False) 0 [ex_burger] ex_best_hook) = [] \<and>
     bestStorage
       (validateBestFoodsImages (\<lambda>k u. Resolves False) 0 [ex_burger] ex_best_hook) BEST_KEY =
       Some (Parsed \<lparr>foods = [], timestamp = 0\<rparr>)"
    by (simp add: validateBestFoodsImages_def Let_def isValidAt_def setItem_def ex_best_hook_def)
  have "mset (validatedFoods
       (validateImages False (\<lambda>k u. Resolves False) [] 0 [ex_burger] (mountHook 0 Map.empty))) =
     mset [ex_burger]"
    by (rule validateImages_mset)
  then have d: "validatedFoods
       (validateImages False (\<lambda>k u. Resolves False) [] 0 [ex_burger] (mountHook 0 Map.empty)) =
     [ex_burger]"
    by simp
  show ?thesis using g c by (simp add: d)
qed

lemma batchProgress_probed:
  assumes "0 < n"
  shows "batchProgress (j * bs) bs n = min ((of_nat (min (Suc j * bs) n) / of_nat n) * 100) 100"
proof (cases "Suc j * bs \<le> n")
  case True
  then have "min (Suc j * bs) n = j * bs + bs" by simp
  then show ?thesis by (simp only: batchProgress_def)
next
  case False
  then have m: "min (Suc j * bs) n = n" by simp
  define q :: rat where "q = of_nat (j * bs + bs) / of_nat n"
  have "n \<le> j * bs + bs" using False by simp
  then have "(of_nat n :: rat) \<le> of_nat (j * bs + bs)" by (simp only: of_nat_le_iff)
  moreover have "(0 :: rat) < of_nat n" using assms by simp
  ultimately have "1 \<le> q" unfolding q_def by (simp only: le_divide_eq_1_pos)
  then have "min (q * 100) 100 = 100" by simp
  then have l: "batchProgress (j * bs) bs n = 100" by (simp only: batchProgress_def q_def)
  have "(of_nat n / of_nat n :: rat) * 100 = 100" using assms by simp
  then show ?thesis by (simp only: l m)
qed

lemma probedShare_mono: "j \<le> j' \<Longrightarrow> probedShare bs n j \<le> probedShare bs n j'"
proof -
  assume "j \<le> j'"
  then have "min (j * bs) n \<le> min (j' * bs) n" by (simp add: min_le_iff_disj le_imp_less_or_eq mult_le_mono1)
  then have "(of_nat (min (j * bs) n) :: rat) \<le> of_nat (min (j' * bs) n)" by (simp only: of_nat_le_iff)
  then have "(of_nat (min (j * bs) n) :: rat) / of_nat n \<le> of_nat (min (j' * bs) n) / of_nat n"
    by (rule divide_right_mono) simp
  then have "(of_nat (min (j * bs) n) :: rat) / of_nat n * 100 \<le> of_nat (min (j' * bs) n) / of_nat n * 100"
    by (rule mult_right_mono) simp
  then show ?thesis unfolding probedShare_def by (rule min.mono) simp
qed

lemma probedShare_bounds: "0 \<le> probedShare bs n j \<and> probedShare bs n j \<le> 100"
  by (simp add: probedShare_def)

lemma sorted_probedShare: "sorted (map (probedShare bs n) [a..<b])"
proof -
  have "sorted_wrt (\<le>) [a..<b]" by simp
  then have "sorted_wrt (\<lambda>x y. probedShare bs n x \<le> probedShare bs n y) [a..<b]"
    by (rule sorted_wrt_mono_rel [rotated]) (simp add: probedShare_mono)
  then show ?thesis by (simp only: sorted_map)
qed

lemma sorted_passProgress: "sorted (passProgress m len)"
  using probedShare_bounds sorted_probedShare
  by (simp add: passProgress_def sorted_append del: upt_Suc)

lemma batch_updates_eq:
  "map (\<lambda>j. batchProgress (j * bs) bs n) [0..<(n + bs - 1) div bs] =
   map (probedShare bs n) [1..<Suc ((n + bs - 1) div bs)]"
proof (cases "0 < n")
  case True
  have "map (probedShare bs n) [Suc 0..<Suc ((n + bs - 1) div bs)] =
        map (probedShare bs n) (map Suc [0..<(n + bs - 1) div bs])"
    by (simp only: map_Suc_upt)
  also have "\<dots> = map (\<lambda>j. batchProgress (j * bs) bs n) [0..<(n + bs - 1) div bs]"
    using batchProgress_probed [OF True] by (simp add: probedShare_def del: mult_Suc)
  finally show ?thesis by simp
next
  case False
  then have "n = 0" by simp
  then show ?thesis by (cases "bs = 0") simp_all
qed

text \<open>
  C7. The values \<^verbatim>\<open>validationProgress\<close> takes during one pass are: 0, then after the
  \<open>j\<close>-th batch the share of the window probed so far times 100, capped at 100, then
  100. This sequence is non-decreasing, and the value the pass leaves is exactly 100.
\<close>

theorem validationProgress_monotone:
  "progressLog (validateImages m chk cap now fs h) = progressLog h @ passProgress m (length fs) \<and>
   sorted (passProgress m (length fs)) \<and>
   hd (passProgress m (length fs)) = 0 \<and>
   last (passProgress m (length fs)) = 100 \<and>
   validationProgress (validateImages m chk cap now fs h) = 100"
proof -
  have a: "progressLog (validateImages m chk cap now fs h) = progressLog h @ passProgress m (length fs)"
    by (simp only: validateImages_progressLog passProgress_def batch_updates_eq)
  have b: "hd (passProgress m (length fs)) = 0 \<and> last (passProgress m (length fs)) = 100"
    by (simp add: passProgress_def del: upt_Suc)
  show ?thesis using a b sorted_passProgress validateImages_frame by simp
qed

section \<open>Properties of the image probe\<close>

lemma runCallback_settled:
  "settledAs ps = ResolvedP b \<Longrightarrow> settledAs (runCallback ps cb) = ResolvedP b"
  by (cases cb) (simp_all add: resolve_def clearTimeout_def)

lemma run_settled:
  "settledAs ps = ResolvedP b \<Longrightarrow> settledAs (foldl runCallback ps sch) = ResolvedP b"
  by (induction sch arbitrary: ps) (simp_all add: runCallback_settled)

lemma runCallback_not_rejected:
  "settledAs ps \<noteq> RejectedP \<Longrightarrow> settledAs (runCallback ps cb) \<noteq> RejectedP"
  by (cases cb; cases "settledAs ps") (simp_all add: resolve_def clearTimeout_def)

lemma run_not_rejected:
  "settledAs ps \<noteq> RejectedP \<Longrightarrow> settledAs (foldl runCallback ps sch) \<noteq> RejectedP"
  by (induction sch arbitrary: ps) (simp_all add: runCallback_not_rejected)

lemma first_callback:
  "settledAs (runCallback \<lparr>settledAs = Pending, timerArmed = True\<rparr> cb) = ResolvedP (cb = ImgOnload)"
  by (cases cb) (simp_all add: resolve_def clearTimeout_def)

lemma checkImageUrl_first:
  "checkImageUrl url (cb # rest) = ResolvedP (url \<noteq> [] \<and> cb = ImgOnload)"
  by (simp add: checkImageUrl_def run_settled [OF first_callback])

text \<open>
  C9. The promise of \<^verbatim>\<open>checkImageUrl\<close> is never rejected, whatever callbacks the event loop
  delivers. Once the first callback has run it is resolved, and it is resolved with true
  exactly when the url is not empty and that first callback is the image's \<^verbatim>\<open>onload\<close>.
  In the browser the timer's callback is due after the timeout, so: the promise resolves,
  with true exactly when the url is not empty and the image loads within the timeout, and
  with false when the image fails, when the timeout expires first, and when the url is
  empty.
\<close>

theorem checkImageUrl_always_resolves:
  "checkImageUrl url schedule \<noteq> RejectedP \<and>
   checkImageUrl url (cb # rest) = ResolvedP (url \<noteq> [] \<and> cb = ImgOnload) \<and>
   checkImageUrl url (eventLoop timeoutMs beh tie) =
     ResolvedP (url \<noteq> [] \<and> loadsInTime timeoutMs beh tie)"
proof -
  have a: "checkImageUrl url schedule \<noteq> RejectedP"
    by (simp add: checkImageUrl_def run_not_rejected)
  have b: "checkImageUrl url (eventLoop timeoutMs beh tie) =
     ResolvedP (url \<noteq> [] \<and> loadsInTime timeoutMs beh tie)"
    by (cases beh) (simp_all add: eventLoop_def loadsInTime_def checkImageUrl_first)
  show ?thesis using a b checkImageUrl_first by simp
qed

section \<open>Properties of the aggregator\<close>

lemma firstSeen_snoc:
  "firstSeen (xs @ [x]) =
     firstSeen xs @ (if uniqueId x \<in> set (map uniqueId xs) then [] else [x])"
proof -
  have idx: "[0..<length (xs @ [x])] = [0..<length xs] @ [length xs]" by simp
  have old: "\<And>k. k \<in> set [0..<length xs] \<Longrightarrow>
      (uniqueId ((xs @ [x]) ! k) \<notin> set (map uniqueId (take k (xs @ [x])))) =
      (uniqueId (xs ! k) \<notin> set (map uniqueId (take k xs)))"
    by (simp add: nth_append)
  have f1: "filter (\<lambda>k. uniqueId ((xs @ [x]) ! k) \<notin> set (map uniqueId (take k (xs @ [x]))))
              [0..<length xs] =
            filter (\<lambda>k. uniqueId (xs ! k) \<notin> set (map uniqueId (take k xs))) [0..<length xs]"
    using old by (rule filter_cong [OF refl])
  have m1: "\<And>ks. set ks \<subseteq> {0..<length xs} \<Longrightarrow>
      map (\<lambda>k. (xs @ [x]) ! k) ks = map (\<lambda>k. xs ! k) ks"
    by (rule map_cong [OF refl]) (auto simp add: nth_append)
  have sub: "set (filter (\<lambda>k. uniqueId (xs ! k) \<notin> set (map uniqueId (take k xs))) [0..<length xs])
     \<subseteq> {0..<length xs}" by auto
  show ?thesis
    unfolding firstSeen_def idx filter_append map_append f1 m1 [OF sub]
    by simp
qed

lemma firstSeen_Nil: "firstSeen [] = []"
  by (simp add: firstSeen_def)



lemma firstSeen_distinct: "distinct (map uniqueId xs) \<Longrightarrow> firstSeen xs = xs"
  by (induction xs rule: rev_induct) (simp_all add: firstSeen_Nil firstSeen_snoc)


lemma truthy_stamp: "truthy (uniqueId (stamp cat x))"
  by (simp add: stamp_def)

lemma truthy_itemsOf: "f \<in> set (itemsOf rc) \<Longrightarrow> truthy (uniqueId f)"
  by (cases rc rule: itemsOf.cases) (auto simp add: truthy_stamp)

lemma addIfUnseen_truthy:
  "uniqueId x = Some u \<Longrightarrow> u \<noteq> [] \<Longrightarrow>
   addIfUnseen (seen, out) x =
     (if u \<in> seen then (seen, out) else (insert u seen, out @ [x]))"
  by simp

lemma fold_addIfUnseen:
  "\<forall>y \<in> set xs. truthy (uniqueId y) \<Longrightarrow>
   foldl addIfUnseen ({}, []) xs = ({u. Some u \<in> set (map uniqueId xs)}, firstSeen xs)"
proof (induction xs rule: rev_induct)
  case Nil
  show ?case by (simp add: firstSeen_Nil)
next
  case (snoc x xs)
  have txs: "\<forall>y \<in> set xs. truthy (uniqueId y)" using snoc.prems by simp
  have ih: "foldl addIfUnseen ({}, []) xs = ({u. Some u \<in> set (map uniqueId xs)}, firstSeen xs)"
    using snoc.IH txs by simp
  have "truthy (uniqueId x)" using snoc.prems by simp
  then obtain u where u: "uniqueId x = Some u" "u \<noteq> []" by (cases "uniqueId x") auto
  have ins: "insert u {v. Some v \<in> set (map uniqueId xs)} = {v. Some v \<in> set (map uniqueId (xs @ [x]))}"
    using u by auto
  have same: "Some u \<in> set (map uniqueId xs) \<Longrightarrow>
     {v. Some v \<in> set (map uniqueId xs)} = {v. Some v \<in> set (map uniqueId (xs @ [x]))}"
    using u by auto
  show ?case
  proof (cases "Some u \<in> set (map uniqueId xs)")
    case True
    have "foldl addIfUnseen ({}, []) (xs @ [x]) = ({v. Some v \<in> set (map uniqueId xs)}, firstSeen xs)"
      using True by (simp add: ih addIfUnseen_truthy [OF u] del: addIfUnseen.simps)
    then show ?thesis using True u same [OF True] by (simp add: firstSeen_snoc)
  next
    case False
    have "foldl addIfUnseen ({}, []) (xs @ [x]) =
          (insert u {v. Some v \<in> set (map uniqueId xs)}, firstSeen xs @ [x])"
      using False by (simp add: ih addIfUnseen_truthy [OF u] del: addIfUnseen.simps)
    then show ?thesis using False u ins by (simp add: firstSeen_snoc)
  qed
qed

lemma stampAll_ok:
  "Nullish \<notin> set items \<Longrightarrow> stampAll cat items = Inr (map (stamp cat) (records items))"
  by (induction cat items rule: stampAll.induct) simp_all

lemma stampAll_throws: "Nullish \<in> set items \<Longrightarrow> stampAll cat items = Inl TypeError"
proof (induction cat items rule: stampAll.induct)
  case (1 cat)
  then show ?case by simp
next
  case (2 cat items)
  show ?case by simp
next
  case (3 cat f items)
  then show ?case by simp
qed

lemma combine_ok:
  "\<not> throwsOn r \<Longrightarrow> combine a (r, cat) = Inr (foldl addIfUnseen a (itemsOf (r, cat)))"
  by (cases "(a, (r, cat))" rule: combine.cases) (simp_all add: stampAll_ok)

lemma combine_throws: "throwsOn r \<Longrightarrow> combine a (r, cat) = Inl TypeError"
  by (cases "(a, (r, cat))" rule: combine.cases) (simp_all add: stampAll_throws)

lemma forEachResult_ok:
  "\<forall>rc \<in> set rs. \<not> throwsOn (fst rc) \<Longrightarrow>
   forEachResult a rs = Inr (foldl addIfUnseen a (concat (map itemsOf rs)))"
proof (induction rs arbitrary: a)
  case Nil
  show ?case by simp
next
  case (Cons rc rs)
  obtain r cat where rc: "rc = (r, cat)" by (cases rc)
  have nr: "\<not> throwsOn r" using Cons.prems rc by simp
  show ?case using Cons.IH Cons.prems by (simp add: rc combine_ok [OF nr])
qed

lemma forEachResult_throws:
  "\<exists>rc \<in> set rs. throwsOn (fst rc) \<Longrightarrow> forEachResult a rs = Inl TypeError"
proof (induction rs arbitrary: a)
  case Nil
  then show ?case by simp
next
  case (Cons rc rs)
  obtain r cat where rc: "rc = (r, cat)" by (cases rc)
  show ?case
  proof (cases "throwsOn r")
    case True
    then show ?thesis by (simp add: rc combine_throws)
  next
    case False
    have "\<exists>rc \<in> set rs. throwsOn (fst rc)" using Cons.prems False rc by auto
    then show ?thesis using Cons.IH by (simp add: rc combine_ok [OF False])
  qed
qed

lemma set_settledResults_fst: "fst ` set (settledResults http) = http ` set endpoints"
proof -
  have "length (map http endpoints) = length categories"
    by (simp add: endpoints_def categories_def)
  then have "map fst (zip (map http endpoints) categories) = map http endpoints"
    by (rule map_fst_zip)
  then have "set (map fst (settledResults http)) = set (map http endpoints)"
    by (simp only: settledResults_def)
  then show ?thesis by simp
qed

lemma getAllFoods_ok:
  assumes "\<forall>e \<in> set endpoints. \<not> throwsOn (http e)"
  shows "getAllFoods http = firstSeen (concat (map itemsOf (settledResults http)))"
proof -
  have "\<forall>rc \<in> set (settledResults http). \<not> throwsOn (fst rc)"
  proof
    fix rc assume "rc \<in> set (settledResults http)"
    then have "fst rc \<in> fst ` set (settledResults http)" by (rule imageI)
    then have "fst rc \<in> http ` set endpoints" by (simp only: set_settledResults_fst)
    then obtain e where "e \<in> set endpoints" "fst rc = http e" by auto
    then show "\<not> throwsOn (fst rc)" using assms by simp
  qed
  then have "forEachResult ({}, []) (settledResults http) =
     Inr (foldl addIfUnseen ({}, []) (concat (map itemsOf (settledResults http))))"
    by (rule forEachResult_ok)
  moreover have "\<forall>y \<in> set (concat (map itemsOf (settledResults http))). truthy (uniqueId y)"
    by (auto simp add: truthy_itemsOf)
  ultimately show ?thesis
    by (simp add: getAllFoods_def getAllFoods_try_def fold_addIfUnseen)
qed

lemma getAllFoods_aborted:
  assumes "\<exists>e \<in> set endpoints. throwsOn (http e)"
  shows "getAllFoods http = []"
proof -
  have "\<exists>rc \<in> set (settledResults http). throwsOn (fst rc)"
  proof -
    obtain e where e: "e \<in> set endpoints" "throwsOn (http e)" using assms by auto
    have "http e \<in> http ` set endpoints" using e(1) by (rule imageI)
    then have "http e \<in> fst ` set (settledResults http)"
      by (simp only: set_settledResults_fst)
    then obtain rc where rc: "rc \<in> set (settledResults http)" "fst rc = http e" by auto
    have "throwsOn (fst rc)" using rc(2) e(2) by (simp only:)
    then show ?thesis using rc(1) by (rule bexI)
  qed
  then have "forEachResult ({}, []) (settledResults http) = Inl TypeError"
    by (rule forEachResult_throws)
  then show ?thesis
    by (simp add: getAllFoods_def getAllFoods_try_def)
qed



lemma first_occurrence_split:
  "x \<notin> set p \<Longrightarrow> x \<notin> set q \<Longrightarrow> p @ x # s = q @ x # t \<Longrightarrow> p = q \<and> s = t"
proof (induction p arbitrary: q)
  case Nil
  then show ?case by (cases q) auto
next
  case (Cons y p)
  show ?case
  proof (cases q)
    case Nil
    then show ?thesis using Cons.prems by auto
  next
    case (Cons z q')
    then have "p = q' \<and> s = t" using Cons.IH [of q'] Cons.prems by auto
    then show ?thesis using Cons Cons.prems by auto
  qed
qed

lemma stamp_key_inj:
  assumes "CHR ''-'' \<notin> set c" "CHR ''-'' \<notin> set c'" "a @ ''-'' @ c = b @ ''-'' @ c'"
  shows "a = b \<and> c = c'"
proof -
  have "rev (a @ ''-'' @ c) = rev (b @ ''-'' @ c')" using assms(3) by (rule arg_cong)
  then have e: "rev c @ CHR ''-'' # rev a = rev c' @ CHR ''-'' # rev b" by simp
  have "CHR ''-'' \<notin> set (rev c)" "CHR ''-'' \<notin> set (rev c')" using assms by simp_all
  then have "rev c = rev c' \<and> rev a = rev b" using e by (rule first_occurrence_split)
  then show ?thesis by simp
qed

lemma uniqueId_stamp: "uniqueId (stamp cat x) = Some (food_id x @ ''-'' @ cat)"
  by (simp add: stamp_def)

lemma key_of_itemsOf:
  "f \<in> set (itemsOf (r, cat)) \<Longrightarrow> \<exists>a. uniqueId f = Some (a @ ''-'' @ cat)"
  by (cases "(r, cat)" rule: itemsOf.cases) (auto simp add: uniqueId_stamp)

lemma distinct_itemsOf:
  assumes "idsDistinct r" "CHR ''-'' \<notin> set cat"
  shows "distinct (map uniqueId (itemsOf (r, cat)))"
proof (cases "(r, cat)" rule: itemsOf.cases)
  case (1 items c)
  then have d: "distinct (map food_id (records items))" using assms(1) by simp
  have "inj (\<lambda>a. Some (a @ ''-'' @ cat))" by (rule injI) simp
  then have "distinct (map (\<lambda>a. Some (a @ ''-'' @ cat)) (map food_id (records items)))"
    using d by (simp only: distinct_map) (simp add: inj_on_def)
  then show ?thesis using 1 by (simp add: comp_def uniqueId_stamp)
qed simp_all

lemma distinct_concat_items:
  assumes "distinct (map snd rs)"
    and "\<forall>rc \<in> set rs. CHR ''-'' \<notin> set (snd rc) \<and> idsDistinct (fst rc)"
  shows "distinct (map uniqueId (concat (map itemsOf rs)))"
  using assms
proof (induction rs)
  case Nil
  show ?case by simp
next
  case (Cons rc rs)
  obtain r cat where rc: "rc = (r, cat)" by (cases rc)
  have hd: "distinct (map uniqueId (itemsOf (r, cat)))"
    using Cons.prems(2) rc by (simp add: distinct_itemsOf)
  have tl: "distinct (map uniqueId (concat (map itemsOf rs)))"
    using Cons.IH Cons.prems by simp
  have disj: "set (map uniqueId (itemsOf (r, cat))) \<inter>
              set (map uniqueId (concat (map itemsOf rs))) = {}"
  proof (rule ccontr)
    assume "\<not> ?thesis"
    then obtain f g where f: "f \<in> set (itemsOf (r, cat))"
      and g: "g \<in> set (concat (map itemsOf rs))" and eq: "uniqueId f = uniqueId g"
      by auto
    from g obtain r' cat' where rc': "(r', cat') \<in> set rs" "g \<in> set (itemsOf (r', cat'))"
      by auto
    obtain a where a: "uniqueId f = Some (a @ ''-'' @ cat)" using key_of_itemsOf [OF f] by auto
    obtain b where b: "uniqueId g = Some (b @ ''-'' @ cat')" using key_of_itemsOf [OF rc'(2)] by auto
    have d1: "CHR ''-'' \<notin> set cat" using Cons.prems(2) rc by simp
    have d2: "CHR ''-'' \<notin> set cat'" using Cons.prems(2) rc'(1) by auto
    have "a @ ''-'' @ cat = b @ ''-'' @ cat'" using a b eq by simp
    then have "cat = cat'" using stamp_key_inj [OF d1 d2] by simp
    moreover have "cat \<notin> set (map snd rs)" using Cons.prems(1) rc by simp
    moreover have "cat' \<in> set (map snd rs)" using rc'(1) by force
    ultimately show False by simp
  qed
  show ?case using hd tl disj by (simp add: rc)
qed

lemma snd_settledResults: "map snd (settledResults http) = categories"
  unfolding settledResults_def
  by (rule map_snd_zip) (simp add: endpoints_def categories_def)

lemma categories_distinct: "distinct categories"
  by (simp add: categories_def)

lemma categories_no_dash: "c \<in> set categories \<Longrightarrow> CHR ''-'' \<notin> set c"
  by (auto simp add: categories_def)

lemma settledResults_mem:
  "rc \<in> set (settledResults http) \<Longrightarrow>
   snd rc \<in> set categories \<and> (\<exists>e \<in> set endpoints. fst rc = http e)"
proof -
  assume m: "rc \<in> set (settledResults http)"
  then have "snd rc \<in> set (map snd (settledResults http))" by simp
  then have s: "snd rc \<in> set categories" by (simp only: snd_settledResults)
  from m have "fst rc \<in> fst ` set (settledResults http)" by (rule imageI)
  then have "fst rc \<in> http ` set endpoints" by (simp only: set_settledResults_fst)
  then show ?thesis using s by auto
qed

lemma getAllFoods_all_kept:
  assumes "\<forall>e \<in> set endpoints. \<not> throwsOn (http e) \<and> idsDistinct (http e)"
  shows "getAllFoods http = concat (map itemsOf (settledResults http))"
proof -
  have "\<forall>rc \<in> set (settledResults http). CHR ''-'' \<notin> set (snd rc) \<and> idsDistinct (fst rc)"
  proof
    fix rc assume "rc \<in> set (settledResults http)"
    then have "snd rc \<in> set categories \<and> (\<exists>e \<in> set endpoints. fst rc = http e)"
      by (rule settledResults_mem)
    then show "CHR ''-'' \<notin> set (snd rc) \<and> idsDistinct (fst rc)"
      using assms categories_no_dash by auto
  qed
  then have "distinct (map uniqueId (concat (map itemsOf (settledResults http))))"
    using categories_distinct by (intro distinct_concat_items) (simp_all only: snd_settledResults)
  then have "firstSeen (concat (map itemsOf (settledResults http))) =
             concat (map itemsOf (settledResults http))"
    by (rule firstSeen_distinct)
  then show ?thesis using assms by (simp add: getAllFoods_ok)
qed

lemma itemsOf_Rejected: "itemsOf (Rejected, cat) = []"
  by simp

lemma getAllFoods_all_rejected:
  assumes "\<forall>e \<in> set endpoints. http e = Rejected"
  shows "getAllFoods http = []"
proof -
  have a: "\<forall>e \<in> set endpoints. \<not> throwsOn (http e)" using assms by simp
  have "\<forall>rc \<in> set (settledResults http). itemsOf rc = []"
  proof
    fix rc assume "rc \<in> set (settledResults http)"
    then have "\<exists>e \<in> set endpoints. fst rc = http e" using settledResults_mem by blast
    then have "fst rc = Rejected" using assms by auto
    then show "itemsOf rc = []" by (cases rc) simp
  qed
  then have c: "concat (map itemsOf (settledResults http)) = []" by simp
  show ?thesis by (simp only: getAllFoods_ok [OF a] c firstSeen_Nil)
qed

section \<open>Properties of the hook\<close>

lemma ex_getAllFoods:
  "getAllFoods ex_http_burgers = [stamp ''burgers'' ex_burger, stamp ''burgers'' ex_soda]"
  by code_simp

lemma ex_mount:
  "mountHook 0 Map.empty = \<lparr>validatedFoods = [], isValidating = False, validationProgress = 0,
          hasValidated = False, queryData = None,
          localStorage = Map.empty, progressLog = [], probed = []\<rparr>"
  by (simp add: mountHook_def readCache_def readHasValidated_def)

lemma effect_runs:
  assumes "queryData h = Some d" "d \<noteq> []" "\<not> hasValidated h" "validatedFoods h = []"
    "\<not> (m \<and> constrained conn)"
  shows "validationEffect m conn chk now h =
           (validateImages m chk [] now d (h\<lparr>isValidating := True\<rparr>))\<lparr>hasValidated := True\<rparr>"
  using assms by (auto simp add: validationEffect_def)

lemma ex_validated_eq:
  "ex_validated =
     (validateImages False ex_probe [] 777 [stamp ''burgers'' ex_burger, stamp ''burgers'' ex_soda]
        ((queryDelivers ex_http_burgers (mountHook 0 Map.empty))\<lparr>isValidating := True\<rparr>))
     \<lparr>hasValidated := True\<rparr>"
  unfolding ex_validated_def
  by (rule effect_runs) (simp_all add: queryDelivers_def ex_mount ex_getAllFoods constrained_def)

lemma effect_pass_result:
  assumes "queryData h = Some d" "d \<noteq> []" "\<not> hasValidated h" "validatedFoods h = []"
    "\<not> (m \<and> constrained conn)"
  shows "localStorage (validationEffect m conn chk now h) MAIN_KEY =
           Some (Parsed \<lparr>foods = [], timestamp = now\<rparr>) \<and>
         mset (validatedFoods (validationEffect m conn chk now h)) = mset d \<and>
         ret_validCount (validationEffect m conn chk now h) = length d \<and>
         ret_totalCount (validationEffect m conn chk now h) = length d"
proof -
  have m: "mset (validatedFoods (validationEffect m conn chk now h)) = mset d"
    by (simp add: effect_runs [OF assms] validateImages_mset)
  have l: "length (validatedFoods (validationEffect m conn chk now h)) = length d"
    using m by (rule mset_eq_length)
  show ?thesis using m l assms(1)
    by (simp add: effect_runs [OF assms] validateImages_storage validateImages_frame
          ret_validCount_def ret_totalCount_def)
qed

text \<open>
  C4 does not hold of the code. The claim: the record written when a pass completes holds
  the list the pass just produced. On a fresh storage, with a catalog of two items
  fetched and validated on desktop at time 777, the pass produces the two items and the
  record written holds no item at all: line 223 writes the \<^verbatim>\<open>validatedFoods\<close> constant of
  the render that started the pass, which is empty whenever the effect starts one
  (\<open>effect_pass_result\<close>), not the list \<^verbatim>\<open>reordered\<close>. The timestamp is the time of the
  write, as claimed.
\<close>

theorem cache_write_is_stale:
  "validatedFoods ex_validated = [stamp ''burgers'' ex_burger, stamp ''burgers'' ex_soda] \<and>
   localStorage ex_validated MAIN_KEY = Some (Parsed \<lparr>foods = [], timestamp = 777\<rparr>)"
  by (simp add: ex_validated_eq validateImages_validatedFoods validateImages_storage
        windowSize_def isValidAt_def ex_probe_def stamp_def ex_burger_def ex_soda_def)

text \<open>
  C8 does not hold of the code. The claim: \<^verbatim>\<open>validCount\<close> is the number of items confirmed
  valid. In the same run one of the two items has no image and its probe resolves to
  false, so one item is confirmed valid; \<^verbatim>\<open>validCount\<close> is 2, the length of the whole
  reordered list (line 266), and equals \<^verbatim>\<open>totalCount\<close> after every pass
  (\<open>effect_pass_result\<close>).
\<close>

theorem validCount_counts_all:
  "ret_validCount ex_validated = 2 \<and> ret_totalCount ex_validated = 2 \<and>
   length (filter (\<lambda>(k, f). isValidAt ex_probe k f)
     (enumerate 0 (take (windowSize False) (getAllFoods ex_http_burgers)))) = 1"
  by (simp add: ret_validCount_def ret_totalCount_def ex_validated_eq validateImages_validatedFoods
        validateImages_frame queryDelivers_def ex_mount ex_getAllFoods
        windowSize_def isValidAt_def ex_probe_def stamp_def ex_burger_def ex_soda_def)

















section \<open>The catalog: partial failure and the dedup invariant\<close>









text \<open>
  C2, as amended. \<^verbatim>\<open>getAllFoods\<close> always resolves to a list. When every request is
  rejected or fulfilled with a falsy body or with an array that holds no \<^verbatim>\<open>null\<close>, the
  list is made of the stamped items of the fulfilled arrays, in category order and then
  in the order of each response, keeping for each \<^verbatim>\<open>uniqueId\<close> the first item that
  carries it; when the raw ids of each response are pairwise different that is every
  item. When every request is rejected the list is empty. When some request is fulfilled
  with a truthy body that is not an array, or with an array that holds \<^verbatim>\<open>null\<close>, the
  outer \<^verbatim>\<open>catch\<close> makes the list empty, whatever the other responses hold.
\<close>

theorem getAllFoods_tolerates_failures:
  "(list_all (\<lambda>e. \<not> throwsOn (http e)) endpoints \<longrightarrow>
      getAllFoods http = firstSeen (concat (map itemsOf (settledResults http)))) \<and>
   (list_all (\<lambda>e. \<not> throwsOn (http e) \<and> idsDistinct (http e)) endpoints \<longrightarrow>
      getAllFoods http = concat (map itemsOf (settledResults http))) \<and>
   (list_all (\<lambda>e. http e = Rejected) endpoints \<longrightarrow> getAllFoods http = []) \<and>
   (list_ex (\<lambda>e. throwsOn (http e)) endpoints \<longrightarrow> getAllFoods http = [])"
proof (intro conjI impI)
  assume "list_all (\<lambda>e. \<not> throwsOn (http e)) endpoints"
  then show "getAllFoods http = firstSeen (concat (map itemsOf (settledResults http)))"
    by (simp add: list_all_iff getAllFoods_ok)
next
  assume "list_all (\<lambda>e. \<not> throwsOn (http e) \<and> idsDistinct (http e)) endpoints"
  then have "\<forall>e \<in> set endpoints. \<not> throwsOn (http e) \<and> idsDistinct (http e)"
    by (simp only: list_all_iff)
  then show "getAllFoods http = concat (map itemsOf (settledResults http))"
    by (rule getAllFoods_all_kept)
next
  assume "list_all (\<lambda>e. http e = Rejected) endpoints"
  then have "\<forall>e \<in> set endpoints. http e = Rejected" by (simp only: list_all_iff)
  then show "getAllFoods http = []" by (rule getAllFoods_all_rejected)
next
  assume "list_ex (\<lambda>e. throwsOn (http e)) endpoints"
  then have "\<exists>e \<in> set endpoints. throwsOn (http e)" by (simp only: list_ex_iff)
  then show "getAllFoods http = []" by (rule getAllFoods_aborted)
qed

text \<open>
  The claim C2 as stated fails for a malformed body: with one burger fetched and the
  pizza request answered by a body that is not an array, the successful categories hold
  one item and \<^verbatim>\<open>getAllFoods\<close> returns none.
\<close>

theorem malformed_body_empties_catalog:
  "getAllFoods ex_http_malformed = [] \<and>
   concat (map itemsOf (settledResults ex_http_malformed)) = [stamp ''burgers'' ex_burger]"
  by code_simp





theorem getAllFoods_tolerates_failures_witness:
  "list_all (\<lambda>e. \<not> throwsOn (ex_http_two e) \<and> idsDistinct (ex_http_two e)) endpoints \<and>
   getAllFoods ex_http_two =
     [stamp ''burgers'' ex_burger, stamp ''burgers'' ex_soda, stamp ''pizzas'' ex_pizza] \<and>
   list_all (\<lambda>e. ex_http_down e = Rejected) endpoints \<and>
   getAllFoods ex_http_down = [] \<and>
   list_ex (\<lambda>e. throwsOn (ex_http_malformed e)) endpoints \<and>
   getAllFoods ex_http_malformed = [] \<and>
   list_ex (\<lambda>e. throwsOn (ex_http_null e)) endpoints \<and>
   getAllFoods ex_http_null = []"
proof -
  have ok: "list_all (\<lambda>e. \<not> throwsOn (ex_http_two e) \<and> idsDistinct (ex_http_two e)) endpoints"
    by (simp add: endpoints_def ex_http_two_def ex_burger_def ex_soda_def ex_pizza_def)
  have cc: "concat (map itemsOf (settledResults ex_http_two)) =
     [stamp ''burgers'' ex_burger, stamp ''burgers'' ex_soda, stamp ''pizzas'' ex_pizza]"
    by (simp add: settledResults_def endpoints_def categories_def ex_http_two_def)
  have dn: "list_all (\<lambda>e. ex_http_down e = Rejected) endpoints"
    by (simp add: endpoints_def ex_http_down_def)
  have mf: "list_ex (\<lambda>e. throwsOn (ex_http_malformed e)) endpoints"
    by (simp add: endpoints_def ex_http_malformed_def)
  have nl: "list_ex (\<lambda>e. throwsOn (ex_http_null e)) endpoints"
    by (simp add: endpoints_def ex_http_null_def)
  have A: "getAllFoods ex_http_two = concat (map itemsOf (settledResults ex_http_two))"
    using getAllFoods_tolerates_failures [of ex_http_two] ok by blast
  have B: "getAllFoods ex_http_down = []"
    using getAllFoods_tolerates_failures [of ex_http_down] dn by blast
  have C: "getAllFoods ex_http_malformed = []"
    using getAllFoods_tolerates_failures [of ex_http_malformed] mf by blast
  have D: "getAllFoods ex_http_null = []"
    using getAllFoods_tolerates_failures [of ex_http_null] nl by blast
  show ?thesis using ok dn mf nl B C D by (simp add: A cc)
qed

end
